theory Spec2Isabelle
  imports Complex_Main
begin

section \<open>Text: the Python string operations used by \<open>productive_new_editors.py\<close>\<close>

text \<open>
  Text is a list of characters, each one byte: a Python string is kept as its UTF-8
  encoding. The three characters the program treats specially are the tab (code 9), the
  newline (code 10) and the backslash (code 92). Each of them is a single byte that is
  part of the encoding of no other character, so replacing them in the bytes is
  replacing them in the string.
\<close>

definition TAB :: char where
  "TAB = CHR 0x09"

definition NL :: char where
  "NL = CHR 0x0A"

definition BSL :: char where
  "BSL = CHR 0x5C"

text \<open>
  Python's \<^verbatim>\<open>s.replace(old, new)\<close>: scanning from the left, every non-overlapping
  occurrence of \<open>old\<close> is replaced by \<open>new\<close>. With an empty \<open>old\<close>, \<open>new\<close> is put
  before every character and at the end.
\<close>

function replace :: "string \<Rightarrow> string \<Rightarrow> string \<Rightarrow> string" where
  "replace old new s =
     (if old = [] then new @ concat (map (\<lambda>c. c # new) s)
      else if s = [] then []
      else if take (length old) s = old then new @ replace old new (drop (length old) s)
      else hd s # replace old new (tl s))"
  by pat_completeness auto
termination
  by (relation "measure (\<lambda>(old, new, s). length s)") (auto simp: Suc_le_eq)

declare replace.simps [simp del]

text \<open>
  \<^verbatim>\<open>
  def escape(string):
      "Escapes a string for inclusion in a TSV file"
      return string.replace("\t", "\\t").replace("\n", "\\n")
  \<close>
\<close>

definition escape :: "string \<Rightarrow> string" where
  "escape string = replace [NL] [BSL, CHR ''n''] (replace [TAB] [BSL, CHR ''t''] string)"

text \<open>
  Python's \<^verbatim>\<open>sep.join(parts)\<close>.
\<close>

fun join :: "string \<Rightarrow> string list \<Rightarrow> string" where
  "join sep [] = []"
| "join sep [x] = x"
| "join sep (x # y # ys) = x @ sep @ join sep (y # ys)"

text \<open>
  Python's \<^verbatim>\<open>s.split(sep)\<close> for a one-character separator: the fields between
  the occurrences of the separator, so a text with \<open>k\<close> separators has \<open>k + 1\<close> fields.
  The program does not call it; it is how a reader of the report cuts a line into fields.
\<close>

fun split :: "char \<Rightarrow> string \<Rightarrow> string list" where
  "split sep [] = [[]]"
| "split sep (c # cs) =
     (if c = sep then [] # split sep cs
      else (case split sep cs of
              [] \<Rightarrow> [[c]]
            | field # fields \<Rightarrow> (c # field) # fields))"

text \<open>
  Python's \<^verbatim>\<open>str(b)\<close> of a bool and \<^verbatim>\<open>str(i)\<close> of an int (decimal digits, a
  leading minus sign for a negative number). \<open>digit_char\<close> is only applied to a
  number below ten.
\<close>

definition str_bool :: "bool \<Rightarrow> string" where
  "str_bool b = (if b then ''True'' else ''False'')"

definition digit_char :: "nat \<Rightarrow> char" where
  "digit_char d = ''0123456789'' ! d"

function digits :: "nat \<Rightarrow> string" where
  "digits k = (if k < 10 then [digit_char k] else digits (k div 10) @ [digit_char (k mod 10)])"
  by pat_completeness auto
termination
  by (relation "measure (\<lambda>k. k)") auto

declare digits.simps [simp del]

definition str_int :: "int \<Rightarrow> string" where
  "str_int i = (if i < 0 then CHR ''-'' # digits (nat (- i)) else digits (nat i))"

section \<open>Rows, errors and the external collaborators\<close>

text \<open>
  A row of the user table and a row of the revision table joined with its page, as the
  queries of the \<^verbatim>\<open>mw\<close> library hand them to the program. The text columns are byte
  strings; \<open>user_registration\<close> is nullable in the database, so it may be absent.
\<close>

record user_row =
  user_id :: int
  user_name :: string
  user_registration :: "string option"

record rev_row =
  rev_id :: int
  rev_page :: int
  rev_user :: int
  rev_timestamp :: string
  page_namespace :: int

text \<open>The exceptions that the body of \<^verbatim>\<open>run\<close> can meet.\<close>

datatype error = ValueError | TypeError | UnicodeDecodeError | OverflowError

text \<open>One invocation of the revert check, with its arguments.\<close>

record check_call =
  arg_row :: rev_row
  arg_radius :: int
  arg_before :: int

text \<open>
  What \<^verbatim>\<open>run\<close> uses and does not define. All of it belongs to libraries outside the
  program, so it is a parameter of the model:
  \<^item> \<open>Timestamp\<close>: the constructor \<^verbatim>\<open>mw.Timestamp\<close> applied to a column value; it
    gives the time in seconds since the epoch or raises. Adding seconds to a timestamp
    and \<^verbatim>\<open>.unix()\<close> are then integer addition and the identity;
  \<^item> \<open>utf8\<close>: \<^verbatim>\<open>str(b, 'utf-8')\<close> on a byte string, which gives text or raises;
  \<^item> \<open>users_query\<close>: \<^verbatim>\<open>db.users.query(registered_after, registered_before)\<close>;
  \<^item> \<open>revisions_query\<close>: \<^verbatim>\<open>db.revisions.query(user_id, before, include_page=True)\<close>;
  \<^item> \<open>check_row\<close>: \<^verbatim>\<open>reverts.database.check_row(db, rev_row, radius, before)\<close>, which
    gives \<open>None\<close> when the revision was not reverted;
  \<^item> \<open>time_time\<close>: the clock; \<open>time_time k\<close> is what the call of \<^verbatim>\<open>time.time()\<close>
    returns that follows \<open>k\<close> earlier calls. It is a double-precision number of
    seconds, given by a mantissa and a binary exponent.
\<close>

record 'r env =
  Timestamp :: "string option \<Rightarrow> error + int"
  utf8 :: "string \<Rightarrow> error + string"
  users_query :: "int \<Rightarrow> int \<Rightarrow> user_row list"
  revisions_query :: "int \<Rightarrow> int \<Rightarrow> rev_row list"
  check_row :: "rev_row \<Rightarrow> int \<Rightarrow> int \<Rightarrow> 'r option"
  time_time :: "nat \<Rightarrow> int \<times> int"

section \<open>Double-precision numbers\<close>

text \<open>
  Python's \<^verbatim>\<open>float\<close> is the IEEE double. A finite double is a mantissa \<open>m\<close> below
  \<open>2 ^ 53\<close> in magnitude with a binary exponent \<open>e\<close> between \<open>-1074\<close> and \<open>971\<close>; the
  pair \<open>(m, e)\<close> stands for the number \<open>m * 2 ^ e\<close>. The result of an operation is the
  exact result rounded to the nearest double, to the one with the even mantissa when two
  are equally near, and an infinity when the rounded magnitude reaches \<open>2 ^ 1024\<close>.
\<close>

type_synonym dyadic = "int \<times> int"

definition dyadic_value :: "dyadic \<Rightarrow> real" where
  "dyadic_value d =
     (case d of (m, e) \<Rightarrow>
        if 0 \<le> e then real_of_int m * 2 ^ nat e else real_of_int m / 2 ^ nat (- e))"

definition is_double :: "dyadic \<Rightarrow> bool" where
  "is_double d = (case d of (m, e) \<Rightarrow> \<bar>m\<bar> < 2 ^ 53 \<and> - 1074 \<le> e \<and> e \<le> 971)"

datatype double = Finite dyadic | Infinity bool

text \<open>The number of binary digits of a positive integer.\<close>

function bits :: "int \<Rightarrow> nat" where
  "bits k = (if k \<le> 0 then 0 else Suc (bits (k div 2)))"
  by pat_completeness auto
termination
  by (relation "measure nat") auto

declare bits.simps [simp del]

text \<open>
  Rounding to 53 significant binary digits: the digits beyond the 53rd are dropped, and
  the mantissa is increased by one when they are more than half a unit of its last
  place, or exactly half and the mantissa is odd. The exponent of the argument is at
  least \<open>-1074\<close> wherever the program rounds, since its operands are doubles and
  integers.
\<close>

definition round53 :: "dyadic \<Rightarrow> dyadic" where
  "round53 d =
     (case d of (m, e) \<Rightarrow>
        if \<bar>m\<bar> < 2 ^ 53 then (m, e)
        else let s = bits \<bar>m\<bar> - 53;
                 q = \<bar>m\<bar> div 2 ^ s;
                 r = \<bar>m\<bar> mod 2 ^ s;
                 half = 2 ^ (s - 1);
                 q' = (if half < r \<or> (r = half \<and> odd q) then q + 1 else q)
             in (sgn m * q', e + int s))"

text \<open>The magnitude is \<open>2 ^ 1024\<close> or more.\<close>

definition overflows :: "dyadic \<Rightarrow> bool" where
  "overflows d =
     (case d of (m, e) \<Rightarrow>
        if 0 \<le> e then 2 ^ 1024 \<le> \<bar>m\<bar> * 2 ^ nat e else 2 ^ 1024 * 2 ^ nat (- e) \<le> \<bar>m\<bar>)"

definition to_double :: "dyadic \<Rightarrow> double" where
  "to_double d =
     (let r = round53 d
      in if overflows r then Infinity (0 < fst r) else Finite r)"

text \<open>The exact difference of two numbers, and the difference as Python computes it.\<close>

definition dyadic_sub :: "dyadic \<Rightarrow> dyadic \<Rightarrow> dyadic" where
  "dyadic_sub a b =
     (case a of (m1, e1) \<Rightarrow> case b of (m2, e2) \<Rightarrow>
        let e = min e1 e2
        in (m1 * 2 ^ nat (e1 - e) - m2 * 2 ^ nat (e2 - e), e))"

definition float_sub :: "dyadic \<Rightarrow> dyadic \<Rightarrow> double" where
  "float_sub a b = to_double (dyadic_sub a b)"

text \<open>
  The conversion of an \<^verbatim>\<open>int\<close> operand to a double, which the subtraction of an
  \<^verbatim>\<open>int\<close> from a \<^verbatim>\<open>float\<close> begins with: the nearest double, or an
  \<^verbatim>\<open>OverflowError\<close> when the integer is too large.
\<close>

definition float_of_int :: "int \<Rightarrow> error + dyadic" where
  "float_of_int i =
     (case to_double (i, 0) of
        Infinity positive \<Rightarrow> Inl OverflowError
      | Finite d \<Rightarrow> Inr d)"

text \<open>
  The comparison \<^verbatim>\<open>x < b\<close> of a \<^verbatim>\<open>float\<close> with an \<^verbatim>\<open>int\<close>, which Python
  decides exactly.
\<close>

definition double_less_int :: "double \<Rightarrow> int \<Rightarrow> bool" where
  "double_less_int x b =
     (case x of
        Infinity positive \<Rightarrow> \<not> positive
      | Finite (m, e) \<Rightarrow> if 0 \<le> e then m * 2 ^ nat e < b else m < b * 2 ^ nat (- e))"

section \<open>The program\<close>

text \<open>\<^verbatim>\<open>DAY_SECONDS = 60*60*24\<close>\<close>

definition DAY_SECONDS :: int where
  "DAY_SECONDS = 60 * 60 * 24"

text \<open>
  The inner loop of \<^verbatim>\<open>run\<close> over the revisions of one user. Its state is the counter
  \<open>productive_edits\<close> and, for the properties that speak of what the revert check is
  asked, the list of the calls made so far. The \<^verbatim>\<open>break\<close> is the branch that returns
  without looking at the remaining revisions.
  \<^verbatim>\<open>
  productive_edits = 0
  for rev_row in revisions:
      rev_timestamp = Timestamp(rev_row['rev_timestamp'])
      if rev_row['page_namespace'] == 0:
          revert_end_of_life = rev_timestamp + DAY_SECONDS*2
          revert = reverts.database.check_row(db, rev_row, radius = 15,
                                              before = revert_end_of_life)
          if revert == None:
              productive_edits += 1
              if productive_edits >= n:
                  break
  \<close>
\<close>

fun scan :: "'r env \<Rightarrow> int \<Rightarrow> rev_row list \<Rightarrow> int \<Rightarrow> check_call list
    \<Rightarrow> error + (int \<times> check_call list)" where
  "scan db n [] productive_edits calls = Inr (productive_edits, calls)"
| "scan db n (row # revisions) productive_edits calls =
     (case Timestamp db (Some (rev_timestamp row)) of
        Inl e \<Rightarrow> Inl e
      | Inr ts \<Rightarrow>
          if page_namespace row = 0 then
            let revert_end_of_life = ts + DAY_SECONDS * 2;
                revert = check_row db row 15 revert_end_of_life;
                calls' = calls @ [\<lparr>arg_row = row, arg_radius = 15,
                                   arg_before = revert_end_of_life\<rparr>]
            in if revert = None then
                 if productive_edits + 1 \<ge> n then Inr (productive_edits + 1, calls')
                 else scan db n revisions (productive_edits + 1) calls'
               else scan db n revisions productive_edits calls'
          else scan db n revisions productive_edits calls)"

text \<open>
  The last field of a row:
  \<^verbatim>\<open>time.time() - user_registration.unix() < (2+t)*DAY_SECONDS\<close>.
  The reading of the clock is a double and the registration an integer: the integer is
  converted to a double, the difference is rounded to a double, and the result is
  compared with the integer bound.
\<close>

definition censored :: "dyadic \<Rightarrow> int \<Rightarrow> int \<Rightarrow> error + bool" where
  "censored now registration t =
     (case float_of_int registration of
        Inl e \<Rightarrow> Inl e
      | Inr r \<Rightarrow> Inr (double_less_int (float_sub now r) ((2 + t) * DAY_SECONDS)))"

text \<open>
  \<^verbatim>\<open>str(value, 'utf-8')\<close> on a column value: decoding needs a byte string, and
  Python raises a \<^verbatim>\<open>TypeError\<close> when it is given \<^verbatim>\<open>None\<close>.
\<close>

definition str_utf8 :: "'r env \<Rightarrow> string option \<Rightarrow> error + string" where
  "str_utf8 db v = (case v of None \<Rightarrow> Inl TypeError | Some b \<Rightarrow> utf8 db b)"

text \<open>
  The body of the outer loop for one user: the line it prints, or the exception that
  leaves it. \<open>k\<close> is the number of rows printed before, which is the number of earlier
  readings of the clock. The elements of the list given to \<^verbatim>\<open>join\<close> are evaluated
  from left to right, so the name is decoded before the registration, and the clock is
  read last.
\<close>

definition user_line :: "'r env \<Rightarrow> int \<Rightarrow> int \<Rightarrow> nat \<Rightarrow> user_row \<Rightarrow> error + string" where
  "user_line db n t k row =
     (case Timestamp db (user_registration row) of
        Inl e \<Rightarrow> Inl e
      | Inr registration \<Rightarrow>
          let revisions = revisions_query db (user_id row) (registration + DAY_SECONDS * t)
          in case scan db n revisions 0 [] of
               Inl e \<Rightarrow> Inl e
             | Inr (productive_edits, calls) \<Rightarrow>
                 (case str_utf8 db (Some (user_name row)) of
                    Inl e \<Rightarrow> Inl e
                  | Inr name \<Rightarrow>
                      (case str_utf8 db (user_registration row) of
                         Inl e \<Rightarrow> Inl e
                       | Inr registered \<Rightarrow>
                           (case censored (time_time db k) registration t of
                              Inl e \<Rightarrow> Inl e
                            | Inr c \<Rightarrow>
                                Inr (join [TAB]
                                       [str_int (user_id row),
                                        escape name,
                                        escape registered,
                                        str_bool (productive_edits \<ge> n),
                                        str_bool c])))))"

text \<open>The line of column names that \<^verbatim>\<open>run\<close> prints first.\<close>

definition header :: string where
  "header = join [TAB] [''user_id'', ''user_name'', ''user_registration'',
                        ''productive'', ''censored'']"

text \<open>
  The outer loop, from the \<open>k\<close>-th row on: the lines printed and the exception that ended
  the loop, if one did. An exception is caught nowhere, so it ends the loop and the run;
  what was printed before stays printed.
\<close>

fun run_users :: "'r env \<Rightarrow> int \<Rightarrow> int \<Rightarrow> nat \<Rightarrow> user_row list \<Rightarrow> string list \<times> error option" where
  "run_users db n t k [] = ([], None)"
| "run_users db n t k (row # users) =
     (case user_line db n t k row of
        Inl e \<Rightarrow> ([], Some e)
      | Inr line \<Rightarrow>
          (case run_users db n t (Suc k) users of
             (lines, err) \<Rightarrow> (line # lines, err)))"

text \<open>
  \<^verbatim>\<open>run(db, start_date, end_date, n, t)\<close>: the lines written to the standard output,
  each without the newline that \<^verbatim>\<open>print\<close> appends, and the exception raised, if any.
\<close>

definition run :: "'r env \<Rightarrow> int \<Rightarrow> int \<Rightarrow> int \<Rightarrow> int \<Rightarrow> string list \<times> error option" where
  "run db start_date end_date n t =
     (case run_users db n t 0 (users_query db start_date end_date) of
        (lines, err) \<Rightarrow> (header # lines, err))"

section \<open>The conditions of a productive edit\<close>

text \<open>
  The conditions under which a revision counts, stated apart from the loop so that the
  loop can be compared with them. A revision lies before a bound when its timestamp
  reads as a time below the bound; it is not reverted when the revert check, asked with
  radius 15 and the revision's time plus 48 hours, answers \<open>None\<close>.
\<close>

definition rev_before :: "'r env \<Rightarrow> int \<Rightarrow> rev_row \<Rightarrow> bool" where
  "rev_before db bound r =
     (case Timestamp db (Some (rev_timestamp r)) of
        Inl e \<Rightarrow> False
      | Inr ts \<Rightarrow> ts < bound)"

definition not_reverted :: "'r env \<Rightarrow> rev_row \<Rightarrow> bool" where
  "not_reverted db r =
     (case Timestamp db (Some (rev_timestamp r)) of
        Inl e \<Rightarrow> False
      | Inr ts \<Rightarrow> check_row db r 15 (ts + 48 * 3600) = None)"

definition productive_revision :: "'r env \<Rightarrow> rev_row \<Rightarrow> bool" where
  "productive_revision db r \<longleftrightarrow> page_namespace r = 0 \<and> not_reverted db r"

text \<open>The number of recorded calls of the revert check that answered \<open>None\<close>.\<close>

definition unreverted_calls :: "'r env \<Rightarrow> check_call list \<Rightarrow> int" where
  "unreverted_calls db calls =
     int (length (filter (\<lambda>c. check_row db (arg_row c) (arg_radius c) (arg_before c) = None) calls))"

section \<open>The revert detector\<close>

text \<open>
  Modelled from the spec: the revert detector \<^verbatim>\<open>is_reverted\<close> of section 4.1, which the
  program reaches as \<^verbatim>\<open>reverts.database.check_row\<close> and whose code is not part of the
  source file. A revision carries the state of the page after it; a missing state is
  \<open>None\<close> and matches nothing.
\<close>

record revision =
  revision_id :: int
  page_id :: int
  timestamp :: int
  author_id :: int
  content_state :: "string option"

record revert_record =
  reverting_revision :: revision
  reverted_revisions :: "revision list"
  reverted_to :: revision

text \<open>
  Modelled from the spec: the first of the earlier revisions whose state is the state
  that revision \<open>r\<close> leaves, if there is one.
\<close>

definition restored :: "revision list \<Rightarrow> revision \<Rightarrow> revision option" where
  "restored earlier r =
     find (\<lambda>p. content_state p \<noteq> None \<and> content_state p = content_state r) earlier"

text \<open>
  Modelled from the spec: the walk through the window of later revisions of the page, at
  most \<open>radius\<close> of them and none beyond the deadline. The first revision that restores
  a state from before the candidate is the revert; the revisions passed on the way,
  the candidate first, are the ones it undoes.
\<close>

fun walk :: "revision list \<Rightarrow> int \<Rightarrow> int \<Rightarrow> revision list \<Rightarrow> revision list
    \<Rightarrow> revert_record option" where
  "walk earlier deadline radius undone [] = None"
| "walk earlier deadline radius undone (r # window) =
     (if radius \<le> 0 then None
      else if deadline < timestamp r then None
      else (case restored earlier r of
              Some p \<Rightarrow> Some \<lparr>reverting_revision = r, reverted_revisions = undone,
                             reverted_to = p\<rparr>
            | None \<Rightarrow> walk earlier deadline (radius - 1) (undone @ [r]) window))"

text \<open>
  Modelled from the spec: \<^verbatim>\<open>is_reverted(candidate, window, radius, deadline)\<close>. The
  revisions from before the candidate, whose states a revert can restore, are the
  argument \<open>earlier\<close>. A candidate whose own state is missing cannot be checked and
  counts as not reverted.
\<close>

definition is_reverted :: "revision list \<Rightarrow> revision \<Rightarrow> revision list \<Rightarrow> int \<Rightarrow> int
    \<Rightarrow> revert_record option" where
  "is_reverted earlier candidate window radius deadline =
     (if content_state candidate = None then None
      else walk earlier deadline radius [candidate] window)"

section \<open>A small wiki\<close>

text \<open>
  A concrete database on which the program can be run: Ann registers on 1 January 2014 at
  midnight and makes three article edits and one talk-page edit in the next three
  hours; Bob, whose name holds a tab, and Cy register at the same time; Eve's
  registration cannot be read and Dan has none.
\<close>

definition stamps :: "(string \<times> int) list" where
  "stamps = [(''20140101000000'', 1388534400), (''20140101010000'', 1388538000),
             (''20140101020000'', 1388541600), (''20140101030000'', 1388545200),
             (''18700101000000'', - 3155673600)]"

definition demo_Timestamp :: "string option \<Rightarrow> error + int" where
  "demo_Timestamp v =
     (case v of
        None \<Rightarrow> Inl ValueError
      | Some s \<Rightarrow> (case map_of stamps s of None \<Rightarrow> Inl ValueError | Some u \<Rightarrow> Inr u))"

definition ann :: user_row where
  "ann = \<lparr>user_id = 7, user_name = ''Ann'', user_registration = Some ''20140101000000''\<rparr>"

definition bob :: user_row where
  "bob = \<lparr>user_id = 8, user_name = [CHR ''B'', TAB, CHR ''o'', NL, CHR ''b''],
          user_registration = Some ''20140101000000''\<rparr>"

definition cy :: user_row where
  "cy = \<lparr>user_id = 11, user_name = ''Cy'', user_registration = Some ''20140101000000''\<rparr>"

definition eve :: user_row where
  "eve = \<lparr>user_id = 9, user_name = ''Eve'', user_registration = Some ''yesterday''\<rparr>"

definition dan :: user_row where
  "dan = \<lparr>user_id = 10, user_name = ''Dan'', user_registration = None\<rparr>"

definition edit1 :: rev_row where
  "edit1 = \<lparr>rev_id = 101, rev_page = 1, rev_user = 7, rev_timestamp = ''20140101010000'',
            page_namespace = 0\<rparr>"

definition edit2 :: rev_row where
  "edit2 = \<lparr>rev_id = 102, rev_page = 1, rev_user = 7, rev_timestamp = ''20140101020000'',
            page_namespace = 0\<rparr>"

definition edit3 :: rev_row where
  "edit3 = \<lparr>rev_id = 103, rev_page = 2, rev_user = 7, rev_timestamp = ''20140101030000'',
            page_namespace = 0\<rparr>"

definition talk1 :: rev_row where
  "talk1 = \<lparr>rev_id = 104, rev_page = 3, rev_user = 11, rev_timestamp = ''20140101010000'',
            page_namespace = 1\<rparr>"

definition demo_revisions :: "rev_row list" where
  "demo_revisions = [edit1, talk1, edit2, edit3]"

text \<open>
  The database with the given users, in which the revisions whose ids are listed were
  reverted, read when the clock shows the whole second \<open>now\<close>.
\<close>

definition demo_db :: "user_row list \<Rightarrow> int list \<Rightarrow> int \<Rightarrow> unit env" where
  "demo_db users reverted now =
     \<lparr>Timestamp = demo_Timestamp,
      utf8 = Inr,
      users_query = (\<lambda>registered_after registered_before. users),
      revisions_query = (\<lambda>uid bound.
         filter (\<lambda>r. rev_user r = uid \<and>
                      (case demo_Timestamp (Some (rev_timestamp r)) of
                         Inl e \<Rightarrow> False | Inr ts \<Rightarrow> ts < bound)) demo_revisions),
      check_row = (\<lambda>r radius bound. if rev_id r \<in> set reverted then Some () else None),
      time_time = (\<lambda>k. (now, 0))\<rparr>"

text \<open>The line that the program prints for Bob when nothing of his counts.\<close>

definition bob_line :: string where
  "bob_line = ''8'' @ [TAB] @ ''B'' @ [BSL] @ ''to'' @ [BSL] @ ''nb'' @ [TAB]
              @ ''20140101000000'' @ [TAB] @ ''False'' @ [TAB] @ ''True''"

text \<open>The line that the program prints for Ann when two of her edits count.\<close>

definition ann_line :: string where
  "ann_line = ''7'' @ [TAB] @ ''Ann'' @ [TAB] @ ''20140101000000'' @ [TAB] @ ''True''
              @ [TAB] @ ''True''"

text \<open>
  The lines that the program prints for Cy, who has no article edit, when the clock
  stands three days after the registration and when it stands one second before that.
\<close>

definition cy_line_late :: string where
  "cy_line_late = ''11'' @ [TAB] @ ''Cy'' @ [TAB] @ ''20140101000000'' @ [TAB] @ ''False''
                  @ [TAB] @ ''False''"

definition cy_line_early :: string where
  "cy_line_early = ''11'' @ [TAB] @ ''Cy'' @ [TAB] @ ''20140101000000'' @ [TAB] @ ''False''
                   @ [TAB] @ ''True''"

text \<open>
  Olga, whose account is dated 1 January 1870, read when the clock shows \<open>2 ^ -22\<close> of a
  second less than 1 January 2014 at midnight; the line that the program prints for Olga
  with \<open>t = 52593\<close>.
\<close>

definition olga :: user_row where
  "olga = \<lparr>user_id = 12, user_name = ''Olga'', user_registration = Some ''18700101000000''\<rparr>"

definition olga_db :: "unit env" where
  "olga_db = (demo_db [olga] [] 0)\<lparr>time_time := (\<lambda>k. (1388534400 * 2 ^ 22 - 1, - 22))\<rparr>"

definition olga_line :: string where
  "olga_line = ''12'' @ [TAB] @ ''Olga'' @ [TAB] @ ''18700101000000'' @ [TAB] @ ''False''
              @ [TAB] @ ''False''"

text \<open>Four revisions of one page; the third restores the state left by the first.\<close>

definition page_rev :: "int \<Rightarrow> int \<Rightarrow> string \<Rightarrow> revision" where
  "page_rev i ts state = \<lparr>revision_id = i, page_id = 1, timestamp = ts, author_id = 7,
                           content_state = Some state\<rparr>"

definition demo_window :: "revision list" where
  "demo_window = [page_rev 3 200 ''c'', page_rev 4 300 ''a'', page_rev 5 400 ''d'']"

section \<open>Replacing a single character\<close>

lemma replace_Nil: "old \<noteq> [] \<Longrightarrow> replace old new [] = []"
  by (subst replace.simps) simp

lemma replace_single_Cons:
  "replace [c] new (x # xs) = (if x = c then new else [x]) @ replace [c] new xs"
  by (subst replace.simps) simp

lemma replace_single:
  "replace [c] new s = concat (map (\<lambda>x. if x = c then new else [x]) s)"
  by (induction s) (simp_all add: replace_Nil replace_single_Cons)

lemma replace_single_absent:
  "c \<notin> set s \<Longrightarrow> replace [c] new s = s"
  by (induction s) (auto simp: replace_single)

lemma replace_single_removes:
  "c \<notin> set new \<Longrightarrow> c \<notin> set (replace [c] new s)"
  by (induction s) (auto simp: replace_single)

lemma replace_single_keeps_absent:
  "d \<notin> set new \<Longrightarrow> d \<notin> set s \<Longrightarrow> d \<notin> set (replace [c] new s)"
  by (induction s) (auto simp: replace_single)

lemma TAB_not_in_escape: "TAB \<notin> set (escape s)"
proof -
  have "TAB \<notin> set (replace [TAB] [BSL, CHR ''t''] s)"
    by (rule replace_single_removes) (simp add: TAB_def BSL_def)
  moreover have "TAB \<notin> set [BSL, CHR ''n'']"
    by (simp add: TAB_def BSL_def)
  ultimately show ?thesis
    unfolding escape_def by (simp add: replace_single_keeps_absent)
qed

lemma NL_not_in_escape: "NL \<notin> set (escape s)"
  unfolding escape_def
  by (rule replace_single_removes) (simp add: NL_def BSL_def)

lemma escape_clean: "TAB \<notin> set s \<Longrightarrow> NL \<notin> set s \<Longrightarrow> escape s = s"
  by (simp add: escape_def replace_single_absent)

section \<open>Lines and their fields\<close>

lemma split_ne: "split sep s \<noteq> []"
  by (induction s) (auto split: list.splits)

lemma split_clean: "sep \<notin> set f \<Longrightarrow> split sep f = [f]"
  by (induction f) auto

lemma split_field: "sep \<notin> set f \<Longrightarrow> split sep (f @ sep # rest) = f # split sep rest"
  by (induction f) auto

lemma split_join:
  "fs \<noteq> [] \<Longrightarrow> \<forall>f \<in> set fs. sep \<notin> set f \<Longrightarrow> split sep (join [sep] fs) = fs"
  by (induction "[sep]" fs rule: join.induct) (simp_all add: split_clean split_field)

text \<open>Neither a number nor a truth value is printed with a tab.\<close>

lemma digit_char_not_TAB: "d < 10 \<Longrightarrow> digit_char d \<noteq> TAB"
proof -
  assume "d < 10"
  then have "digit_char d \<in> set ''0123456789''"
    unfolding digit_char_def by (intro nth_mem) simp
  then show ?thesis by (auto simp: TAB_def)
qed

lemma TAB_not_in_digits: "TAB \<notin> set (digits k)"
proof (induction k rule: digits.induct)
  case (1 k)
  show ?case
  proof (cases "k < 10")
    case True
    then show ?thesis using digit_char_not_TAB [of k] by (subst digits.simps) auto
  next
    case False
    with 1 show ?thesis using digit_char_not_TAB [of "k mod 10"] by (subst digits.simps) auto
  qed
qed

lemma TAB_not_in_str_int: "TAB \<notin> set (str_int i)"
  by (simp add: str_int_def TAB_not_in_digits) (simp add: TAB_def)

lemma TAB_not_in_str_bool: "TAB \<notin> set (str_bool b)"
  by (simp add: str_bool_def TAB_def)


section \<open>The counter of the inner loop\<close>

lemma scan_bounds:
  "scan db n revs pe calls = Inr (pe', calls') \<Longrightarrow>
   pe \<le> pe' \<and> pe' \<le> pe + int (length (filter (productive_revision db) revs))"
proof (induction revs arbitrary: pe calls)
  case Nil
  then show ?case by simp
next
  case (Cons r revs)
  from Cons.prems show ?case
    by (auto simp: Let_def productive_revision_def not_reverted_def DAY_SECONDS_def
        split: sum.splits if_splits dest!: Cons.IH)
qed

lemma scan_exhausted:
  "scan db n revs pe calls = Inr (pe', calls') \<Longrightarrow> pe' < n \<Longrightarrow>
   pe' = pe + int (length (filter (productive_revision db) revs))"
proof (induction revs arbitrary: pe calls)
  case Nil
  then show ?case by simp
next
  case (Cons r revs)
  from Cons.prems show ?case
    by (auto simp: Let_def productive_revision_def not_reverted_def DAY_SECONDS_def
        split: sum.splits if_splits dest!: Cons.IH)
qed

lemma scan_reaches:
  "scan db n revs 0 [] = Inr (pe, calls) \<Longrightarrow>
   n \<le> pe \<longleftrightarrow> n \<le> int (length (filter (productive_revision db) revs))"
  using scan_bounds [of db n revs 0 "[]" pe calls] scan_exhausted [of db n revs 0 "[]" pe calls]
  by (cases "pe < n") auto



section \<open>Differences that are not rounded\<close>

text \<open>
  A number with a mantissa below \<open>2 ^ 53\<close> and no positive exponent is a double, so
  rounding leaves it as it is. The difference of a clock reading below \<open>2 ^ 53\<close> seconds
  and a registration between the epoch and the reading is such a number.
\<close>

lemma round53_small: "\<bar>m\<bar> < 2 ^ 53 \<Longrightarrow> round53 (m, e) = (m, e)"
  by (simp add: round53_def)

lemma no_overflow_small:
  assumes "\<bar>m\<bar> < 2 ^ 53" and "e \<le> 0"
  shows "\<not> overflows (m, e)"
proof -
  have "(2::int) ^ 53 < 2 ^ 1024" by simp
  with assms(1) have m: "\<bar>m\<bar> < 2 ^ 1024" by linarith
  have "(2::int) ^ 1024 * 1 \<le> 2 ^ 1024 * 2 ^ nat (- e)"
    by (intro mult_left_mono) simp_all
  with m have "\<not> 2 ^ 1024 * 2 ^ nat (- e) \<le> \<bar>m\<bar>" by linarith
  with assms(2) m show ?thesis
    by (cases "e = 0") (simp_all add: overflows_def)
qed

lemma to_double_small:
  "\<bar>m\<bar> < 2 ^ 53 \<Longrightarrow> e \<le> 0 \<Longrightarrow> to_double (m, e) = Finite (m, e)"
  by (simp add: to_double_def round53_small no_overflow_small)

lemma double_less_int_value:
  "double_less_int (Finite d) b \<longleftrightarrow> dyadic_value d < real_of_int b"
proof (cases d)
  case (Pair m e)
  show ?thesis
  proof (cases "0 \<le> e")
    case True
    have "m * 2 ^ nat e < b \<longleftrightarrow> real_of_int (m * 2 ^ nat e) < real_of_int b"
      by (simp only: of_int_less_iff)
    with True Pair show ?thesis
      by (simp add: double_less_int_def dyadic_value_def)
  next
    case False
    have "m < b * 2 ^ nat (- e) \<longleftrightarrow> real_of_int m < real_of_int (b * 2 ^ nat (- e))"
      by (simp only: of_int_less_iff)
    also have "\<dots> \<longleftrightarrow> real_of_int m / 2 ^ nat (- e) < real_of_int b"
      by (simp add: pos_divide_less_eq)
    finally show ?thesis using False Pair
      by (simp add: double_less_int_def dyadic_value_def)
  qed
qed

lemma dyadic_sub_value:
  "dyadic_value (dyadic_sub (m, e) (i, 0)) = dyadic_value (m, e) - real_of_int i"
proof (cases "0 \<le> e")
  case True
  then show ?thesis
    by (simp add: dyadic_sub_def dyadic_value_def min_def)
next
  case False
  then show ?thesis
    by (simp add: dyadic_sub_def dyadic_value_def min_def field_simps)
qed

lemma float_sub_exact:
  assumes "is_double (m, e)" and "0 \<le> i"
    and "real_of_int i \<le> dyadic_value (m, e)" and "dyadic_value (m, e) < 2 ^ 53"
  shows "float_sub (m, e) (i, 0) = Finite (dyadic_sub (m, e) (i, 0))"
proof (cases "0 \<le> e")
  case True
  from True assms(3) have "real_of_int i \<le> real_of_int (m * 2 ^ nat e)"
    by (simp add: dyadic_value_def)
  then have lo: "i \<le> m * 2 ^ nat e" by (simp only: of_int_le_iff)
  from True assms(4) have "real_of_int (m * 2 ^ nat e) < real_of_int (2 ^ 53)"
    by (simp add: dyadic_value_def)
  then have hi: "m * 2 ^ nat e < 2 ^ 53" by (simp only: of_int_less_iff)
  from lo hi assms(2) have "\<bar>m * 2 ^ nat e - i\<bar> < 2 ^ 53" by linarith
  then have "to_double (m * 2 ^ nat e - i, 0) = Finite (m * 2 ^ nat e - i, 0)"
    by (rule to_double_small) simp
  with True show ?thesis
    by (simp add: float_sub_def dyadic_sub_def min_absorb2)
next
  case False
  let ?k = "nat (- e)"
  from False assms(3) have "real_of_int i \<le> real_of_int m / 2 ^ ?k"
    by (simp add: dyadic_value_def)
  then have "real_of_int (i * 2 ^ ?k) \<le> real_of_int m"
    by (simp add: pos_le_divide_eq)
  then have lo: "i * 2 ^ ?k \<le> m" by (simp only: of_int_le_iff)
  from assms(2) have "0 \<le> i * 2 ^ ?k" by simp
  moreover from assms(1) have "\<bar>m\<bar> < 2 ^ 53" by (simp add: is_double_def)
  ultimately have "\<bar>m - i * 2 ^ ?k\<bar> < 2 ^ 53" using lo by linarith
  then have "to_double (m - i * 2 ^ ?k, e) = Finite (m - i * 2 ^ ?k, e)"
    using False by (intro to_double_small) simp_all
  with False show ?thesis
    by (simp add: float_sub_def dyadic_sub_def min_def)
qed

lemma float_of_int_exact:
  "\<bar>i\<bar> < 2 ^ 53 \<Longrightarrow> float_of_int i = Inr (i, 0)"
  by (simp add: float_of_int_def to_double_small)

lemma censored_exact:
  assumes "is_double now" and "0 \<le> registration"
    and "real_of_int registration \<le> dyadic_value now" and "dyadic_value now < 2 ^ 53"
  shows "censored now registration t =
         Inr (dyadic_value now - real_of_int registration < real_of_int ((2 + t) * DAY_SECONDS))"
proof (cases now)
  case (Pair m e)
  from assms(3,4) have "real_of_int registration < real_of_int (2 ^ 53)" by simp
  then have "registration < 2 ^ 53" by (simp only: of_int_less_iff)
  with assms(2) have "\<bar>registration\<bar> < 2 ^ 53" by simp
  then have conv: "float_of_int registration = Inr (registration, 0)"
    by (rule float_of_int_exact)
  from assms Pair have
    "float_sub (m, e) (registration, 0) = Finite (dyadic_sub (m, e) (registration, 0))"
    by (intro float_sub_exact) simp_all
  with conv Pair show ?thesis
    by (simp add: censored_def double_less_int_value dyadic_sub_value)
qed

text \<open>The equations that evaluate the program on the small wiki.\<close>

lemmas demo_defs = user_line_def demo_db_def demo_Timestamp_def stamps_def
  demo_revisions_def edit1_def edit2_def edit3_def talk1_def str_utf8_def
  str_int_def digits.simps digit_char_def escape_def replace_single
  str_bool_def censored_def float_of_int_def float_sub_def dyadic_sub_def to_double_def
  round53_def overflows_def double_less_int_def DAY_SECONDS_def TAB_def NL_def BSL_def

section \<open>The row of a user\<close>

lemma user_line_Inr:
  assumes "user_line db n t k row = Inr line"
  obtains registration pe calls name registered c where
    "Timestamp db (user_registration row) = Inr registration"
    "scan db n (revisions_query db (user_id row) (registration + DAY_SECONDS * t)) 0 [] = Inr (pe, calls)"
    "str_utf8 db (Some (user_name row)) = Inr name"
    "str_utf8 db (user_registration row) = Inr registered"
    "censored (time_time db k) registration t = Inr c"
    "line = join [TAB] [str_int (user_id row), escape name, escape registered,
                        str_bool (n \<le> pe), str_bool c]"
  using assms unfolding user_line_def Let_def
  by (auto split: sum.splits prod.splits)

lemma split_row:
  "split TAB (join [TAB] [str_int i, escape a, escape b, str_bool p, str_bool c]) =
   [str_int i, escape a, escape b, str_bool p, str_bool c]"
  by (rule split_join)
    (simp_all add: TAB_not_in_str_int TAB_not_in_escape TAB_not_in_str_bool)

lemma str_bool_True: "str_bool b = ''True'' \<longleftrightarrow> b"
  by (simp add: str_bool_def)

lemma str_bool_False: "str_bool b = ''False'' \<longleftrightarrow> \<not> b"
  by (simp add: str_bool_def)

lemma escape_concat:
  "escape s = concat (map (\<lambda>c. if c = TAB then [BSL, CHR ''t'']
                                else if c = NL then [BSL, CHR ''n''] else [c]) s)"
  by (induction s) (auto simp: escape_def replace_single TAB_def NL_def BSL_def)

text \<open>
  C8. \<open>escape\<close> replaces every tab by a backslash and \<open>t\<close> and every newline by a
  backslash and \<open>n\<close>, and leaves every other character. The name and the registration
  are escaped before they are put into the row, so a row that is printed always has
  exactly five fields between its tabs, whatever the name holds; the second and the third
  field are the escaped name and the escaped registration.
\<close>

theorem escaped_row_has_five_fields:
  "escape s = concat (map (\<lambda>c. if c = TAB then [BSL, CHR ''t'']
                                else if c = NL then [BSL, CHR ''n''] else [c]) s) \<and>
   (user_line db n t k row = Inr line \<longrightarrow>
      length (split TAB line) = 5 \<and>
      (\<exists>name registered.
         str_utf8 db (Some (user_name row)) = Inr name \<and>
         str_utf8 db (user_registration row) = Inr registered \<and>
         split TAB line ! 1 = escape name \<and>
         split TAB line ! 2 = escape registered))"
proof (intro conjI impI)
  show "escape s = concat (map (\<lambda>c. if c = TAB then [BSL, CHR ''t'']
                                else if c = NL then [BSL, CHR ''n''] else [c]) s)"
    by (rule escape_concat)
next
  assume "user_line db n t k row = Inr line"
  then show "length (split TAB line) = 5"
    by (elim user_line_Inr) (simp add: split_row del: join.simps)
next
  assume "user_line db n t k row = Inr line"
  then show "\<exists>name registered.
         str_utf8 db (Some (user_name row)) = Inr name \<and>
         str_utf8 db (user_registration row) = Inr registered \<and>
         split TAB line ! 1 = escape name \<and>
         split TAB line ! 2 = escape registered"
    by (elim user_line_Inr) (simp add: split_row del: join.simps)
qed

theorem escaped_row_has_five_fields_witness:
  "user_line (demo_db [bob] [] 1388534400) 1 1 0 bob = Inr bob_line \<and>
   length (split TAB bob_line) = 5"
proof -
  have line: "user_line (demo_db [bob] [] 1388534400) 1 1 0 bob = Inr bob_line"
    by (simp add: demo_defs bob_def bob_line_def)
  from escaped_row_has_five_fields [of "[]" "demo_db [bob] [] 1388534400" 1 1 0 bob bob_line] line
  have "length (split TAB bob_line) = 5" by blast
  with line show ?thesis by simp
qed

section \<open>Properties of \<open>escape\<close>\<close>

text \<open>
  C10. \<open>escape\<close> is idempotent: escaping an escaped string changes nothing, and the
  reason is that an escaped string holds neither a tab nor a newline.
\<close>

theorem escape_idempotent:
  "escape (escape s) = escape s \<and> TAB \<notin> set (escape s) \<and> NL \<notin> set (escape s)"
  using escape_clean [of "escape s"] TAB_not_in_escape [of s] NL_not_in_escape [of s]
  by simp

section \<open>The fields of a row\<close>

lemma row_field3:
  "split TAB (join [TAB] [str_int i, escape a, escape b, str_bool p, str_bool c]) ! 3 = str_bool p"
  by (simp add: split_row del: join.simps)

lemma row_field4:
  "split TAB (join [TAB] [str_int i, escape a, escape b, str_bool p, str_bool c]) ! 4 = str_bool c"
  by (simp add: split_row del: join.simps)

text \<open>
  C3, as the program has it. Let the reading of the clock, taken as the row is printed,
  be a double below \<open>2 ^ 53\<close> seconds, and let the user have registered at or after the
  epoch and not after that reading. Then the last field of the row is \<open>True\<close> exactly
  when the reading minus the time of registration is less than \<open>(t + 2) * 86400\<close>
  seconds, and \<open>False\<close> otherwise. In particular, with \<open>t = 1\<close>, a user who registered
  exactly \<open>3 * 86400\<close> seconds ago is not censored, and one who registered one second
  less than that ago is.
\<close>

theorem censored_field:
  assumes "user_line db n t k row = Inr line"
    and "Timestamp db (user_registration row) = Inr registration"
    and "is_double (time_time db k)"
    and "0 \<le> registration"
    and "real_of_int registration \<le> dyadic_value (time_time db k)"
    and "dyadic_value (time_time db k) < 2 ^ 53"
  shows "(split TAB line ! 4 = ''True'' \<longleftrightarrow>
            dyadic_value (time_time db k) - real_of_int registration
              < real_of_int ((t + 2) * 86400)) \<and>
         (split TAB line ! 4 = ''False'' \<longleftrightarrow>
            \<not> dyadic_value (time_time db k) - real_of_int registration
              < real_of_int ((t + 2) * 86400)) \<and>
         (t = 1 \<and> dyadic_value (time_time db k) - real_of_int registration = 3 * 86400
            \<longrightarrow> split TAB line ! 4 = ''False'') \<and>
         (t = 1 \<and> dyadic_value (time_time db k) - real_of_int registration = 3 * 86400 - 1
            \<longrightarrow> split TAB line ! 4 = ''True'')"
proof -
  from assms(1,2) obtain c where
    c: "censored (time_time db k) registration t = Inr c" and
    field: "split TAB line ! 4 = str_bool c"
    by (elim user_line_Inr) (simp add: row_field4 del: join.simps)
  from censored_exact [OF assms(3-6), of t] c have exact:
    "c \<longleftrightarrow> dyadic_value (time_time db k) - real_of_int registration
             < real_of_int ((t + 2) * 86400)"
    by (simp add: DAY_SECONDS_def add.commute)
  show ?thesis
    unfolding field str_bool_True str_bool_False exact by auto
qed

theorem censored_field_witness:
  "user_line (demo_db [cy] [] (1388534400 + 3 * 86400)) 1 1 0 cy = Inr cy_line_late \<and>
   split TAB cy_line_late ! 4 = ''False'' \<and>
   user_line (demo_db [cy] [] (1388534400 + 3 * 86400 - 1)) 1 1 0 cy = Inr cy_line_early \<and>
   split TAB cy_line_early ! 4 = ''True''"
proof -
  have late: "user_line (demo_db [cy] [] (1388534400 + 3 * 86400)) 1 1 0 cy = Inr cy_line_late"
    by (simp add: demo_defs cy_def cy_line_late_def)
  have early: "user_line (demo_db [cy] [] (1388534400 + 3 * 86400 - 1)) 1 1 0 cy = Inr cy_line_early"
    by (simp add: demo_defs cy_def cy_line_early_def)
  have reg: "Timestamp (demo_db [cy] [] now) (user_registration cy) = Inr 1388534400" for now
    by (simp add: demo_defs cy_def)
  have double: "is_double (time_time (demo_db [cy] [] now) 0)"
    if "0 \<le> now" "now < 2 ^ 53" for now
    using that by (simp add: demo_db_def is_double_def)
  have clock: "dyadic_value (time_time (demo_db [cy] [] now) 0) = real_of_int now" for now
    by (simp add: demo_db_def dyadic_value_def)
  have "split TAB cy_line_late ! 4 = ''False''"
    using censored_field [OF late reg double] by (simp add: clock)
  moreover have "split TAB cy_line_early ! 4 = ''True''"
    using censored_field [OF early reg double] by (simp add: clock)
  ultimately show ?thesis using late early by simp
qed

text \<open>
  Without these conditions the field can differ from the comparison of the exact
  difference. Olga registered in 1870; with \<open>t = 52593\<close> the bound is 4544208000 seconds and
  the exact difference is \<open>2 ^ -22\<close> of a second less, but the difference rounds to the
  bound and the program prints \<open>False\<close>.
\<close>

theorem rounded_difference_not_censored:
  "Timestamp olga_db (user_registration olga) = Inr (- 3155673600) \<and>
   user_line olga_db 1 52593 0 olga = Inr olga_line \<and>
   split TAB olga_line ! 4 = ''False'' \<and>
   dyadic_value (time_time olga_db 0) - real_of_int (- 3155673600)
     < real_of_int ((52593 + 2) * 86400)"
proof (intro conjI)
  show "Timestamp olga_db (user_registration olga) = Inr (- 3155673600)"
    by (simp add: olga_db_def olga_def demo_defs)
  show "user_line olga_db 1 52593 0 olga = Inr olga_line"
    by (simp add: olga_db_def olga_def olga_line_def demo_defs bits.simps Let_def)
  show "split TAB olga_line ! 4 = ''False''"
    by (simp add: olga_line_def TAB_def)
  show "dyadic_value (time_time olga_db 0) - real_of_int (- 3155673600)
          < real_of_int ((52593 + 2) * 86400)"
    by (simp add: olga_db_def demo_db_def dyadic_value_def)
qed

section \<open>The report\<close>

lemma run_users_complete:
  "run_users db n t k users = (lines, None) \<Longrightarrow>
   length lines = length users \<and>
   (\<forall>i < length users. user_line db n t (k + i) (users ! i) = Inr (lines ! i))"
proof (induction users arbitrary: k lines)
  case Nil
  then show ?case by simp
next
  case (Cons u users)
  from Cons.prems obtain line rest where
    line: "user_line db n t k u = Inr line" and
    rest: "run_users db n t (Suc k) users = (rest, None)" and
    lines: "lines = line # rest"
    by (auto split: sum.splits prod.splits)
  from Cons.IH [OF rest] have
    len: "length rest = length users" and
    rows: "\<And>i. i < length users \<Longrightarrow> user_line db n t (Suc k + i) (users ! i) = Inr (rest ! i)"
    by auto
  show ?case
  proof (intro conjI allI impI)
    show "length lines = length (u # users)"
      using len lines by simp
  next
    fix i assume "i < length (u # users)"
    then show "user_line db n t (k + i) ((u # users) ! i) = Inr (lines ! i)"
      using line rows lines by (cases i) auto
  qed
qed

lemma split_header:
  "split TAB header = [''user_id'', ''user_name'', ''user_registration'', ''productive'', ''censored'']"
  unfolding header_def by (rule split_join) (simp_all add: TAB_def)

lemma user_line_shape:
  assumes "user_line db n t k row = Inr line"
  shows "\<exists>name registered p c.
           str_utf8 db (Some (user_name row)) = Inr name \<and>
           str_utf8 db (user_registration row) = Inr registered \<and>
           p \<in> {''True'', ''False''} \<and> c \<in> {''True'', ''False''} \<and>
           line = join [TAB] [str_int (user_id row), escape name, escape registered, p, c] \<and>
           split TAB line = [str_int (user_id row), escape name, escape registered, p, c]"
proof -
  from assms obtain registration pe calls name registered c where
    name: "str_utf8 db (Some (user_name row)) = Inr name" and
    registered: "str_utf8 db (user_registration row) = Inr registered" and
    line: "line = join [TAB] [str_int (user_id row), escape name, escape registered,
             str_bool (n \<le> pe), str_bool c]"
    by (rule user_line_Inr)
  have p: "str_bool (n \<le> pe) \<in> {''True'', ''False''}"
    by (simp add: str_bool_def)
  have c: "str_bool c \<in> {''True'', ''False''}"
    by (simp add: str_bool_def)
  have fs: "split TAB line = [str_int (user_id row), escape name, escape registered,
             str_bool (n \<le> pe), str_bool c]"
    unfolding line by (rule split_row)
  show ?thesis
    by (intro exI conjI) (fact name, fact registered, fact p, fact c, fact line, fact fs)
qed

text \<open>
  C7. When \<open>run\<close> ends without an exception, what it has printed is the header, whose
  fields are \<open>user_id\<close>, \<open>user_name\<close>, \<open>user_registration\<close>, \<open>productive\<close> and
  \<open>censored\<close> in this order, followed by exactly one line for every user that the query
  returned, in the order of the query. The line of a user is the tab-separated list of
  the user's id, escaped name, escaped registration and the two truth values, each of
  which is the text \<open>True\<close> or the text \<open>False\<close>.
\<close>

theorem report_layout:
  assumes "run db start_date end_date n t = (out, None)"
  shows "\<exists>lines. out = header # lines \<and>
           split TAB header = [''user_id'', ''user_name'', ''user_registration'',
                               ''productive'', ''censored''] \<and>
           length lines = length (users_query db start_date end_date) \<and>
           (\<forall>i < length lines.
              \<exists>name registered p c.
                str_utf8 db (Some (user_name (users_query db start_date end_date ! i))) = Inr name \<and>
                str_utf8 db (user_registration (users_query db start_date end_date ! i)) = Inr registered \<and>
                p \<in> {''True'', ''False''} \<and> c \<in> {''True'', ''False''} \<and>
                lines ! i = join [TAB] [str_int (user_id (users_query db start_date end_date ! i)),
                                        escape name, escape registered, p, c] \<and>
                split TAB (lines ! i) = [str_int (user_id (users_query db start_date end_date ! i)),
                                         escape name, escape registered, p, c])"
proof -
  from assms obtain lines where
    out: "out = header # lines" and
    users: "run_users db n t 0 (users_query db start_date end_date) = (lines, None)"
    by (auto simp: run_def split: prod.splits)
  from run_users_complete [OF users] have
    len: "length lines = length (users_query db start_date end_date)" and
    rows: "\<And>i. i < length lines \<Longrightarrow>
             user_line db n t i (users_query db start_date end_date ! i) = Inr (lines ! i)"
    by auto
  show ?thesis
  proof (rule exI [of _ lines], intro conjI allI impI)
    show "out = header # lines" by (fact out)
    show "split TAB header = [''user_id'', ''user_name'', ''user_registration'',
                              ''productive'', ''censored'']" by (fact split_header)
    show "length lines = length (users_query db start_date end_date)" by (fact len)
  next
    fix i assume "i < length lines"
    then have "user_line db n t i (users_query db start_date end_date ! i) = Inr (lines ! i)"
      by (rule rows)
    then show "\<exists>name registered p c.
        str_utf8 db (Some (user_name (users_query db start_date end_date ! i))) = Inr name \<and>
        str_utf8 db (user_registration (users_query db start_date end_date ! i)) = Inr registered \<and>
        p \<in> {''True'', ''False''} \<and> c \<in> {''True'', ''False''} \<and>
        lines ! i = join [TAB] [str_int (user_id (users_query db start_date end_date ! i)),
                                escape name, escape registered, p, c] \<and>
        split TAB (lines ! i) = [str_int (user_id (users_query db start_date end_date ! i)),
                                 escape name, escape registered, p, c]"
      by (rule user_line_shape)
  qed
qed

theorem report_layout_witness:
  "run (demo_db [ann, bob, cy] [] 1388534400) 0 0 2 1
     = ([header, ann_line, bob_line, cy_line_early], None) \<and>
   (\<exists>lines. [header, ann_line, bob_line, cy_line_early] = header # lines \<and>
      length lines = length (users_query (demo_db [ann, bob, cy] [] 1388534400) 0 0))"
proof -
  have ann: "user_line (demo_db [ann, bob, cy] [] 1388534400) 2 1 0 ann = Inr ann_line"
    by (simp add: demo_defs ann_def ann_line_def)
  have bob: "user_line (demo_db [ann, bob, cy] [] 1388534400) 2 1 (Suc 0) bob = Inr bob_line"
    by (simp add: demo_defs bob_def bob_line_def)
  have cy: "user_line (demo_db [ann, bob, cy] [] 1388534400) 2 1 (Suc (Suc 0)) cy = Inr cy_line_early"
    by (simp add: demo_defs cy_def cy_line_early_def)
  have users: "users_query (demo_db [ann, bob, cy] [] 1388534400) 0 0 = [ann, bob, cy]"
    by (simp add: demo_db_def)
  have r: "run (demo_db [ann, bob, cy] [] 1388534400) 0 0 2 1
     = ([header, ann_line, bob_line, cy_line_early], None)"
    by (simp add: run_def users ann bob cy)
  from report_layout [OF r] obtain lines where
    "[header, ann_line, bob_line, cy_line_early] = header # lines"
    "length lines = length (users_query (demo_db [ann, bob, cy] [] 1388534400) 0 0)"
    by (elim exE conjE) (rule that, assumption+)
  with r show ?thesis
    by (intro conjI exI)
qed

section \<open>The productive field\<close>

text \<open>
  C1. Let the query for the revisions of a user return, from the revisions of the wiki,
  those of the user that lie before the registration plus \<open>t\<close> days. Then the fourth
  field of the user's row is \<open>True\<close> exactly when at least \<open>n\<close> revisions of the user are
  in namespace 0, lie before the registration plus \<open>t * 86400\<close> seconds, and are
  not reverted according to the revert check with radius 15 and the revision's time plus
  48 hours as deadline.
\<close>

theorem productive_field:
  assumes "user_line db n t k row = Inr line"
    and "Timestamp db (user_registration row) = Inr registration"
    and "revisions_query db (user_id row) (registration + DAY_SECONDS * t) =
           filter (\<lambda>r. rev_user r = user_id row \<and>
                        rev_before db (registration + DAY_SECONDS * t) r) revisions"
  shows "split TAB line ! 3 = ''True'' \<longleftrightarrow>
         n \<le> int (length (filter (\<lambda>r. rev_user r = user_id row \<and>
                                        page_namespace r = 0 \<and>
                                        rev_before db (registration + t * 86400) r \<and>
                                        not_reverted db r) revisions))"
proof -
  from assms(1,2) obtain pe calls where
    scan: "scan db n (revisions_query db (user_id row) (registration + DAY_SECONDS * t)) 0 []
             = Inr (pe, calls)" and
    field: "split TAB line ! 3 = str_bool (n \<le> pe)"
    by (elim user_line_Inr) (simp add: row_field3 del: join.simps)
  have bound: "registration + t * 86400 = registration + DAY_SECONDS * t"
    by (simp add: DAY_SECONDS_def)
  have "filter (productive_revision db)
          (revisions_query db (user_id row) (registration + DAY_SECONDS * t)) =
        filter (\<lambda>r. rev_user r = user_id row \<and> page_namespace r = 0 \<and>
                     rev_before db (registration + t * 86400) r \<and> not_reverted db r) revisions"
    unfolding assms(3) bound filter_filter productive_revision_def
    by (rule filter_cong) auto
  with scan_reaches [OF scan] field show ?thesis
    by (simp add: str_bool_True)
qed

theorem productive_field_witness:
  "user_line (demo_db [ann] [101] 1388534400) 2 1 0 ann = Inr ann_line \<and>
   split TAB ann_line ! 3 = ''True'' \<and>
   (2::int) \<le> int (length (filter (\<lambda>r. rev_user r = 7 \<and> page_namespace r = 0 \<and>
        rev_before (demo_db [ann] [101] 1388534400) (1388534400 + 1 * 86400) r \<and>
        not_reverted (demo_db [ann] [101] 1388534400) r) demo_revisions))"
proof -
  have line: "user_line (demo_db [ann] [101] 1388534400) 2 1 0 ann = Inr ann_line"
    by (simp add: demo_defs ann_def ann_line_def)
  have reg: "Timestamp (demo_db [ann] [101] 1388534400) (user_registration ann) = Inr 1388534400"
    by (simp add: demo_defs ann_def)
  have query: "revisions_query (demo_db [ann] [101] 1388534400) (user_id ann)
                 (1388534400 + DAY_SECONDS * 1) =
               filter (\<lambda>r. rev_user r = user_id ann \<and>
                    rev_before (demo_db [ann] [101] 1388534400) (1388534400 + DAY_SECONDS * 1) r)
                 demo_revisions"
    by (simp add: demo_db_def rev_before_def)
  have field: "split TAB ann_line ! 3 = ''True''"
    by (simp add: ann_line_def TAB_def)
  from productive_field [OF line reg query] field line show ?thesis
    by (simp add: ann_def)
qed

section \<open>One step of the inner loop\<close>

text \<open>
  The four ways in which the loop can pass a revision without an exception: the revision
  is outside namespace 0; it is checked and was reverted; it is checked, counts, and
  ends the loop; it is checked, counts, and the loop goes on.
\<close>

lemma scan_Cons_cases [consumes 1, case_names skip reverted last counted]:
  assumes "scan db n (r # revs) pe calls = Inr res"
  obtains
    ts where "Timestamp db (Some (rev_timestamp r)) = Inr ts" "page_namespace r \<noteq> 0"
      "scan db n revs pe calls = Inr res"
  | ts where "Timestamp db (Some (rev_timestamp r)) = Inr ts" "page_namespace r = 0"
      "check_row db r 15 (ts + DAY_SECONDS * 2) \<noteq> None"
      "scan db n revs pe
         (calls @ [\<lparr>arg_row = r, arg_radius = 15, arg_before = ts + DAY_SECONDS * 2\<rparr>]) = Inr res"
  | ts where "Timestamp db (Some (rev_timestamp r)) = Inr ts" "page_namespace r = 0"
      "check_row db r 15 (ts + DAY_SECONDS * 2) = None" "n \<le> pe + 1"
      "res = (pe + 1,
         calls @ [\<lparr>arg_row = r, arg_radius = 15, arg_before = ts + DAY_SECONDS * 2\<rparr>])"
  | ts where "Timestamp db (Some (rev_timestamp r)) = Inr ts" "page_namespace r = 0"
      "check_row db r 15 (ts + DAY_SECONDS * 2) = None" "\<not> n \<le> pe + 1"
      "scan db n revs (pe + 1)
         (calls @ [\<lparr>arg_row = r, arg_radius = 15, arg_before = ts + DAY_SECONDS * 2\<rparr>]) = Inr res"
proof (cases "Timestamp db (Some (rev_timestamp r))")
  case (Inl e)
  with assms show ?thesis by simp
next
  case (Inr ts)
  show ?thesis
  proof (cases "page_namespace r = 0")
    case False
    with assms Inr that(1) show ?thesis by simp
  next
    case True
    show ?thesis
    proof (cases "check_row db r 15 (ts + DAY_SECONDS * 2) = None")
      case False
      with assms Inr True that(2) show ?thesis by (simp add: Let_def)
    next
      case None: True
      show ?thesis
      proof (cases "n \<le> pe + 1")
        case True
        with assms Inr \<open>page_namespace r = 0\<close> None that(3) [of ts] show ?thesis
          by (simp add: Let_def)
      next
        case False
        with assms Inr \<open>page_namespace r = 0\<close> None that(4) [of ts] show ?thesis
          by (simp add: Let_def)
      qed
    qed
  qed
qed

lemma unreverted_calls_Nil: "unreverted_calls db [] = 0"
  by (simp add: unreverted_calls_def)

lemma unreverted_calls_snoc:
  "unreverted_calls db (calls @ [c]) =
   unreverted_calls db calls +
     (if check_row db (arg_row c) (arg_radius c) (arg_before c) = None then 1 else 0)"
  by (simp add: unreverted_calls_def)

lemma unreverted_calls_append:
  "unreverted_calls db (xs @ ys) = unreverted_calls db xs + unreverted_calls db ys"
  by (simp add: unreverted_calls_def)

section \<open>The early exit\<close>

lemma scan_at_most:
  "scan db n revs pe calls = Inr (pe', calls') \<Longrightarrow> pe < n \<Longrightarrow> pe' \<le> n"
proof (induction revs arbitrary: pe calls)
  case Nil
  then show ?case by simp
next
  case (Cons r revs)
  from Cons.prems(1) show ?case
  proof (cases rule: scan_Cons_cases)
    case (skip ts)
    with Cons.IH Cons.prems(2) show ?thesis by blast
  next
    case (reverted ts)
    with Cons.IH Cons.prems(2) show ?thesis by blast
  next
    case (last ts)
    with Cons.prems(2) show ?thesis by simp
  next
    case (counted ts)
    then have "pe + 1 < n" by simp
    with counted(5) Cons.IH show ?thesis by blast
  qed
qed

lemma scan_ignores_later:
  "scan db n revs pe calls = Inr (pe', calls') \<Longrightarrow> pe < n \<Longrightarrow> n \<le> pe' \<Longrightarrow>
   scan db n (revs @ later) pe calls = Inr (pe', calls')"
proof (induction revs arbitrary: pe calls)
  case Nil
  then show ?case by simp
next
  case (Cons r revs)
  from Cons.prems(1) show ?case
  proof (cases rule: scan_Cons_cases)
    case (skip ts)
    with Cons.IH [of pe calls] Cons.prems(2,3) show ?thesis by simp
  next
    case (reverted ts)
    with Cons.IH [OF reverted(4)] Cons.prems(2,3) show ?thesis by (auto simp: Let_def)
  next
    case (last ts)
    then show ?thesis by (simp add: Let_def)
  next
    case (counted ts)
    then have "pe + 1 < n" by simp
    with counted Cons.IH [OF counted(5)] Cons.prems(3) show ?thesis by (auto simp: Let_def)
  qed
qed

lemma scan_calls_below:
  "scan db n revs pe calls = Inr (pe', calls') \<Longrightarrow> pe < n \<Longrightarrow>
   pe = unreverted_calls db calls \<Longrightarrow>
   \<forall>j < length calls. unreverted_calls db (take j calls) < n \<Longrightarrow>
   \<forall>j < length calls'. unreverted_calls db (take j calls') < n"
proof (induction revs arbitrary: pe calls)
  case Nil
  then show ?case by simp
next
  case (Cons r revs)
  have ext: "\<forall>j < length (calls @ [c]). unreverted_calls db (take j (calls @ [c])) < n" for c
  proof (intro allI impI)
    fix j assume "j < length (calls @ [c])"
    then have "j < length calls \<or> j = length calls" by auto
    then show "unreverted_calls db (take j (calls @ [c])) < n"
      using Cons.prems(2,3,4) by auto
  qed
  from Cons.prems(1) show ?case
  proof (cases rule: scan_Cons_cases)
    case (skip ts)
    with Cons.IH [of pe calls] Cons.prems(2,3,4) show ?thesis by blast
  next
    case (reverted ts)
    from Cons.prems(3) reverted(3) have
      "pe = unreverted_calls db
         (calls @ [\<lparr>arg_row = r, arg_radius = 15, arg_before = ts + DAY_SECONDS * 2\<rparr>])"
      by (simp add: unreverted_calls_snoc)
    from Cons.IH [OF reverted(4) Cons.prems(2) this ext] show ?thesis .
  next
    case (last ts)
    with ext show ?thesis by simp
  next
    case (counted ts)
    then have below: "pe + 1 < n" by simp
    from Cons.prems(3) counted(3) have
      "pe + 1 = unreverted_calls db
         (calls @ [\<lparr>arg_row = r, arg_radius = 15, arg_before = ts + DAY_SECONDS * 2\<rparr>])"
      by (simp add: unreverted_calls_snoc)
    from Cons.IH [OF counted(5) below this ext] show ?thesis .
  qed
qed

text \<open>
  C2. Let \<open>n\<close> be at least 1. The counter that the loop over the revisions of a user
  returns never exceeds \<open>n\<close>. Every call of the revert check is made while fewer than
  \<open>n\<close> of the calls before it have answered "not reverted", so no revision is checked
  after the \<open>n\<close>-th productive edit. Once the counter has reached \<open>n\<close>, nothing that
  follows in the sequence of revisions is looked at: whatever follows, the counter and
  the calls made are the same.
\<close>

theorem scan_stops_at_n:
  assumes "1 \<le> n"
  shows "(scan db n revs 0 [] = Inr (pe, calls) \<longrightarrow>
            pe \<le> n \<and> (\<forall>j < length calls. unreverted_calls db (take j calls) < n)) \<and>
         (scan db n revs 0 [] = Inr (pe, calls) \<and> n \<le> pe \<longrightarrow>
            scan db n (revs @ later) 0 [] = Inr (pe, calls))"
proof (intro conjI impI)
  assume s: "scan db n revs 0 [] = Inr (pe, calls)"
  from assms have "0 < n" by simp
  with s show "pe \<le> n" by (rule scan_at_most)
  from s \<open>0 < n\<close> show "\<forall>j < length calls. unreverted_calls db (take j calls) < n"
    by (rule scan_calls_below) (simp_all add: unreverted_calls_Nil)
next
  assume "scan db n revs 0 [] = Inr (pe, calls) \<and> n \<le> pe"
  moreover from assms have "0 < n" by simp
  ultimately show "scan db n (revs @ later) 0 [] = Inr (pe, calls)"
    by (intro scan_ignores_later) simp_all
qed

lemmas scan_demo_defs = demo_db_def demo_Timestamp_def stamps_def edit1_def edit2_def
  edit3_def talk1_def DAY_SECONDS_def Let_def

theorem scan_stops_at_n_witness:
  "scan (demo_db [ann] [] 0) 2 [edit1, edit2] 0 [] =
     Inr (2, [\<lparr>arg_row = edit1, arg_radius = 15, arg_before = 1388710800\<rparr>,
              \<lparr>arg_row = edit2, arg_radius = 15, arg_before = 1388714400\<rparr>]) \<and>
   scan (demo_db [ann] [] 0) 2 ([edit1, edit2] @ [edit3]) 0 [] =
     Inr (2, [\<lparr>arg_row = edit1, arg_radius = 15, arg_before = 1388710800\<rparr>,
              \<lparr>arg_row = edit2, arg_radius = 15, arg_before = 1388714400\<rparr>])"
proof -
  have s: "scan (demo_db [ann] [] 0) 2 [edit1, edit2] 0 [] =
     Inr (2, [\<lparr>arg_row = edit1, arg_radius = 15, arg_before = 1388710800\<rparr>,
              \<lparr>arg_row = edit2, arg_radius = 15, arg_before = 1388714400\<rparr>])"
    by (simp add: scan_demo_defs)
  have n: "(1::int) \<le> 2" by simp
  from scan_stops_at_n [OF n, of "demo_db [ann] [] 0" "[edit1, edit2]" 2 _ "[edit3]"] s
  show ?thesis by simp
qed

section \<open>What the revert check is asked\<close>

lemma unreverted_calls_Cons:
  "unreverted_calls db (c # calls) =
   (if check_row db (arg_row c) (arg_radius c) (arg_before c) = None then 1 else 0) +
     unreverted_calls db calls"
  by (simp add: unreverted_calls_def)

lemma scan_calls_shape:
  "scan db n revs pe calls = Inr (pe', calls') \<Longrightarrow>
   \<exists>new evaluated rest.
     calls' = calls @ new \<and> revs = evaluated @ rest \<and>
     map arg_row new = filter (\<lambda>r. page_namespace r = 0) evaluated \<and>
     (\<forall>c \<in> set new. arg_radius c = 15 \<and>
        Timestamp db (Some (rev_timestamp (arg_row c))) = Inr (arg_before c - DAY_SECONDS * 2)) \<and>
     pe' = pe + unreverted_calls db new"
proof (induction revs arbitrary: pe calls)
  case Nil
  then show ?case by (simp add: unreverted_calls_Nil)
next
  case (Cons r revs)
  from Cons.prems show ?case
  proof (cases rule: scan_Cons_cases)
    case (skip ts)
    from Cons.IH [OF skip(3)] obtain new evaluated rest where
      "calls' = calls @ new" "revs = evaluated @ rest"
      "map arg_row new = filter (\<lambda>r. page_namespace r = 0) evaluated"
      "\<forall>c \<in> set new. arg_radius c = 15 \<and>
        Timestamp db (Some (rev_timestamp (arg_row c))) = Inr (arg_before c - DAY_SECONDS * 2)"
      "pe' = pe + unreverted_calls db new"
      by blast
    with skip(2) show ?thesis
      by (intro exI [of _ new] exI [of _ "r # evaluated"] exI [of _ rest]) simp
  next
    case (reverted ts)
    let ?c = "\<lparr>arg_row = r, arg_radius = 15, arg_before = ts + DAY_SECONDS * 2\<rparr>"
    from Cons.IH [OF reverted(4)] obtain new evaluated rest where
      "calls' = (calls @ [?c]) @ new" "revs = evaluated @ rest"
      "map arg_row new = filter (\<lambda>r. page_namespace r = 0) evaluated"
      "\<forall>c \<in> set new. arg_radius c = 15 \<and>
        Timestamp db (Some (rev_timestamp (arg_row c))) = Inr (arg_before c - DAY_SECONDS * 2)"
      "pe' = pe + unreverted_calls db new"
      by blast
    with reverted(1,2,3) show ?thesis
      by (intro exI [of _ "?c # new"] exI [of _ "r # evaluated"] exI [of _ rest])
        (simp add: unreverted_calls_Cons)
  next
    case (last ts)
    let ?c = "\<lparr>arg_row = r, arg_radius = 15, arg_before = ts + DAY_SECONDS * 2\<rparr>"
    from last show ?thesis
      by (intro exI [of _ "[?c]"] exI [of _ "[r]"] exI [of _ revs])
        (simp add: unreverted_calls_Cons unreverted_calls_Nil)
  next
    case (counted ts)
    let ?c = "\<lparr>arg_row = r, arg_radius = 15, arg_before = ts + DAY_SECONDS * 2\<rparr>"
    from Cons.IH [OF counted(5)] obtain new evaluated rest where
      "calls' = (calls @ [?c]) @ new" "revs = evaluated @ rest"
      "map arg_row new = filter (\<lambda>r. page_namespace r = 0) evaluated"
      "\<forall>c \<in> set new. arg_radius c = 15 \<and>
        Timestamp db (Some (rev_timestamp (arg_row c))) = Inr (arg_before c - DAY_SECONDS * 2)"
      "pe' = pe + 1 + unreverted_calls db new"
      by blast
    with counted(1,2,3) show ?thesis
      by (intro exI [of _ "?c # new"] exI [of _ "r # evaluated"] exI [of _ rest])
        (simp add: unreverted_calls_Cons)
  qed
qed

text \<open>
  C4. The calls of the revert check that the loop makes are, in order, one for each
  revision in namespace 0 among the revisions it evaluates (a leading part of the
  sequence). Each call has radius 15 and, as deadline, the time of its revision plus
  two days, which is 48 hours. The counter that the loop returns is the number of these
  calls that answered \<open>None\<close>: a revision adds one to it exactly when the check says
  that it was not reverted.
\<close>

theorem revert_check_calls:
  assumes "scan db n revs 0 [] = Inr (pe, calls)"
  shows "(\<exists>evaluated rest. revs = evaluated @ rest \<and>
            map arg_row calls = filter (\<lambda>r. page_namespace r = 0) evaluated) \<and>
         (\<forall>c \<in> set calls. arg_radius c = 15 \<and>
            (\<exists>ts. Timestamp db (Some (rev_timestamp (arg_row c))) = Inr ts \<and>
                  arg_before c = ts + 2 * 86400 \<and> arg_before c = ts + 48 * 3600)) \<and>
         pe = unreverted_calls db calls"
proof -
  from scan_calls_shape [OF assms] obtain evaluated rest where
    shape: "revs = evaluated @ rest"
      "map arg_row calls = filter (\<lambda>r. page_namespace r = 0) evaluated" and
    args: "\<forall>c \<in> set calls. arg_radius c = 15 \<and>
        Timestamp db (Some (rev_timestamp (arg_row c))) = Inr (arg_before c - DAY_SECONDS * 2)" and
    count: "pe = unreverted_calls db calls"
    by auto
  have "\<exists>ts. Timestamp db (Some (rev_timestamp (arg_row c))) = Inr ts \<and>
          arg_before c = ts + 2 * 86400 \<and> arg_before c = ts + 48 * 3600"
    if "c \<in> set calls" for c
  proof (intro exI conjI)
    from args that show "Timestamp db (Some (rev_timestamp (arg_row c))) =
        Inr (arg_before c - DAY_SECONDS * 2)" by blast
  qed (simp_all add: DAY_SECONDS_def)
  with shape args count show ?thesis by blast
qed

theorem revert_check_calls_witness:
  "scan (demo_db [ann] [101] 0) 5 [edit1, talk1, edit2] 0 [] =
     Inr (1, [\<lparr>arg_row = edit1, arg_radius = 15, arg_before = 1388710800\<rparr>,
              \<lparr>arg_row = edit2, arg_radius = 15, arg_before = 1388714400\<rparr>]) \<and>
   1 = unreverted_calls (demo_db [ann] [101] 0)
         [\<lparr>arg_row = edit1, arg_radius = 15, arg_before = 1388710800\<rparr>,
          \<lparr>arg_row = edit2, arg_radius = 15, arg_before = 1388714400\<rparr>]"
proof -
  have s: "scan (demo_db [ann] [101] 0) 5 [edit1, talk1, edit2] 0 [] =
     Inr (1, [\<lparr>arg_row = edit1, arg_radius = 15, arg_before = 1388710800\<rparr>,
              \<lparr>arg_row = edit2, arg_radius = 15, arg_before = 1388714400\<rparr>])"
    by (simp add: scan_demo_defs)
  from revert_check_calls [OF s] s show ?thesis by blast
qed

section \<open>Users without an article edit\<close>

lemma scan_no_content:
  "\<forall>r \<in> set revs. page_namespace r \<noteq> 0 \<Longrightarrow>
   scan db n revs pe calls = Inr (pe', calls') \<Longrightarrow> pe' = pe \<and> calls' = calls"
proof (induction revs arbitrary: pe calls)
  case Nil
  then show ?case by simp
next
  case (Cons r revs)
  from Cons.prems(2) show ?case
  proof (cases rule: scan_Cons_cases)
    case (skip ts)
    with Cons.IH Cons.prems(1) show ?thesis by simp
  qed (use Cons.prems(1) in simp_all)
qed

text \<open>
  C5. Let \<open>n\<close> be at least 1 and let every revision that the query returns for a user lie
  outside namespace 0. Then the fourth field of the user's row is \<open>False\<close>, whatever
  the revert check would answer for these revisions: the loop ends with the counter 0
  and without a single call of the check.
\<close>

theorem no_content_edit_not_productive:
  assumes "1 \<le> n"
    and "user_line db n t k row = Inr line"
    and "Timestamp db (user_registration row) = Inr registration"
    and "\<forall>r \<in> set (revisions_query db (user_id row) (registration + DAY_SECONDS * t)).
           page_namespace r \<noteq> 0"
  shows "split TAB line ! 3 = ''False'' \<and>
         scan db n (revisions_query db (user_id row) (registration + DAY_SECONDS * t)) 0 []
           = Inr (0, [])"
proof -
  from assms(2,3) obtain pe calls where
    scan: "scan db n (revisions_query db (user_id row) (registration + DAY_SECONDS * t)) 0 []
             = Inr (pe, calls)" and
    field: "split TAB line ! 3 = str_bool (n \<le> pe)"
    by (elim user_line_Inr) (simp add: row_field3 del: join.simps)
  from scan_no_content [OF assms(4) scan] have "pe = 0" "calls = []"
    by simp_all
  with scan field assms(1) show ?thesis
    by (simp add: str_bool_def)
qed

theorem no_content_edit_not_productive_witness:
  "user_line (demo_db [cy] [104] 1388534400) 1 1 0 cy = Inr cy_line_early \<and>
   split TAB cy_line_early ! 3 = ''False'' \<and>
   scan (demo_db [cy] [104] 1388534400) 1
     (revisions_query (demo_db [cy] [104] 1388534400) (user_id cy)
        (1388534400 + DAY_SECONDS * 1)) 0 [] = Inr (0, [])"
proof -
  have n: "(1::int) \<le> 1" by simp
  have line: "user_line (demo_db [cy] [104] 1388534400) 1 1 0 cy = Inr cy_line_early"
    by (simp add: demo_defs cy_def cy_line_early_def)
  have reg: "Timestamp (demo_db [cy] [104] 1388534400) (user_registration cy) = Inr 1388534400"
    by (simp add: demo_defs cy_def)
  have ns: "\<forall>r \<in> set (revisions_query (demo_db [cy] [104] 1388534400) (user_id cy)
                        (1388534400 + DAY_SECONDS * 1)). page_namespace r \<noteq> 0"
    by (simp add: demo_defs cy_def)
  from no_content_edit_not_productive [OF n line reg ns] line show ?thesis
    by simp
qed

section \<open>A registration that cannot be read\<close>

lemma user_line_bad_registration:
  "Timestamp db (user_registration row) = Inl e \<Longrightarrow> user_line db n t k row = Inl e"
  by (simp add: user_line_def)

lemma run_users_abort:
  "run_users db n t k pre = (rows, None) \<Longrightarrow>
   user_line db n t (k + length pre) u = Inl e \<Longrightarrow>
   run_users db n t k (pre @ u # post) = (rows, Some e)"
proof (induction pre arbitrary: k rows)
  case Nil
  then show ?case by simp
next
  case (Cons p pre)
  from Cons.prems(1) obtain line rest where
    line: "user_line db n t k p = Inr line" and
    rest: "run_users db n t (Suc k) pre = (rest, None)" and
    rows: "rows = line # rest"
    by (auto split: sum.splits prod.splits)
  from Cons.prems(2) have "user_line db n t (Suc k + length pre) u = Inl e"
    by simp
  from Cons.IH [OF rest this] line rows show ?case
    by simp
qed

text \<open>
  C6, as the program has it. When the registration of a user cannot be read as a
  timestamp, because it is malformed or missing, the exception leaves \<open>run\<close>: it is
  handed to the caller and no value is put in the place of the timestamp. No row is
  printed for this user. The run ends there, so no row is printed for any later user
  either; the header and the rows of the users before this one have been printed.
\<close>

theorem unreadable_registration_ends_run:
  assumes "users_query db start_date end_date = pre @ u # post"
    and "run_users db n t 0 pre = (rows, None)"
    and "Timestamp db (user_registration u) = Inl e"
  shows "run db start_date end_date n t = (header # rows, Some e) \<and>
         length rows = length pre"
proof -
  from assms(3) have "user_line db n t (0 + length pre) u = Inl e"
    by (rule user_line_bad_registration)
  with assms(2) have "run_users db n t 0 (pre @ u # post) = (rows, Some e)"
    by (rule run_users_abort)
  with assms(1) have "run db start_date end_date n t = (header # rows, Some e)"
    by (simp add: run_def)
  moreover from run_users_complete [OF assms(2)] have "length rows = length pre"
    by simp
  ultimately show ?thesis by simp
qed

theorem unreadable_registration_ends_run_witness:
  "run (demo_db [ann, dan, cy] [] 1388534400) 0 0 2 1 = ([header, ann_line], Some ValueError)"
proof -
  have users: "users_query (demo_db [ann, dan, cy] [] 1388534400) 0 0 = [ann] @ dan # [cy]"
    by (simp add: demo_db_def)
  have ann: "user_line (demo_db [ann, dan, cy] [] 1388534400) 2 1 0 ann = Inr ann_line"
    by (simp add: demo_defs ann_def ann_line_def)
  then have pre: "run_users (demo_db [ann, dan, cy] [] 1388534400) 2 1 0 [ann] = ([ann_line], None)"
    by simp
  have dan: "Timestamp (demo_db [ann, dan, cy] [] 1388534400) (user_registration dan) = Inl ValueError"
    by (simp add: demo_db_def demo_Timestamp_def dan_def)
  from unreadable_registration_ends_run [OF users pre dan] show ?thesis
    by simp
qed

text \<open>
  The exception is not confined to the row of the user: Eve's registration cannot be
  read, Cy comes after her and would get a row, and the run prints the header only.
\<close>

theorem later_users_lose_their_rows:
  "Timestamp (demo_db [eve, cy] [] 1388534400) (user_registration eve) = Inl ValueError \<and>
   user_line (demo_db [eve, cy] [] 1388534400) 1 1 0 cy = Inr cy_line_early \<and>
   run (demo_db [eve, cy] [] 1388534400) 0 0 1 1 = ([header], Some ValueError)"
proof (intro conjI)
  show eve: "Timestamp (demo_db [eve, cy] [] 1388534400) (user_registration eve) = Inl ValueError"
    by (simp add: demo_db_def demo_Timestamp_def stamps_def eve_def)
  show "user_line (demo_db [eve, cy] [] 1388534400) 1 1 0 cy = Inr cy_line_early"
    by (simp add: demo_defs cy_def cy_line_early_def)
  have "users_query (demo_db [eve, cy] [] 1388534400) 0 0 = [eve, cy]"
    by (simp add: demo_db_def)
  with eve show "run (demo_db [eve, cy] [] 1388534400) 0 0 1 1 = ([header], Some ValueError)"
    by (simp add: run_def user_line_bad_registration)
qed

section \<open>The bounds of the revert detector\<close>

lemma walk_mono:
  "walk earlier deadline radius undone window = Some found \<Longrightarrow>
   radius \<le> radius' \<Longrightarrow> deadline \<le> deadline' \<Longrightarrow>
   walk earlier deadline' radius' undone window = Some found"
proof (induction window arbitrary: radius radius' undone)
  case Nil
  then show ?case by simp
next
  case (Cons r window)
  show ?case
  proof (cases "restored earlier r")
    case None
    with Cons.prems have
      "0 < radius" "\<not> deadline < timestamp r"
      "walk earlier deadline (radius - 1) (undone @ [r]) window = Some found"
      by (auto split: if_splits)
    moreover from Cons.prems(2) have "radius - 1 \<le> radius' - 1" by simp
    ultimately show ?thesis
      using Cons.IH [of "radius - 1" "undone @ [r]" "radius' - 1"] Cons.prems(2,3) None
      by simp
  next
    case (Some p)
    with Cons.prems show ?thesis
      by (auto split: if_splits)
  qed
qed

text \<open>
  C9. For a fixed candidate and a fixed window of later revisions, the revert detector is
  monotone in its two bounds: with a radius and a deadline that are at least as large, a
  revert that was found is found again, and it is the same one; so a result that is
  not null never becomes null, and a null result with the larger bounds was null with
  the smaller ones.
\<close>

theorem is_reverted_monotone:
  assumes "radius \<le> radius'" and "deadline \<le> deadline'"
  shows "(is_reverted earlier candidate window radius deadline = Some found \<longrightarrow>
            is_reverted earlier candidate window radius' deadline' = Some found) \<and>
         (is_reverted earlier candidate window radius' deadline' = None \<longrightarrow>
            is_reverted earlier candidate window radius deadline = None)"
proof -
  have up: "is_reverted earlier candidate window radius' deadline' = Some f"
    if "is_reverted earlier candidate window radius deadline = Some f" for f
  proof -
    from that have state: "content_state candidate \<noteq> None" and
      found: "walk earlier deadline radius [candidate] window = Some f"
      by (simp_all add: is_reverted_def split: if_splits)
    from walk_mono [OF found assms] state show ?thesis
      by (simp add: is_reverted_def)
  qed
  show ?thesis
  proof (intro conjI impI)
    assume "is_reverted earlier candidate window radius deadline = Some found"
    then show "is_reverted earlier candidate window radius' deadline' = Some found"
      by (rule up)
  next
    assume none: "is_reverted earlier candidate window radius' deadline' = None"
    show "is_reverted earlier candidate window radius deadline = None"
    proof (cases "is_reverted earlier candidate window radius deadline")
      case None
      then show ?thesis .
    next
      case (Some f)
      from up [OF this] none show ?thesis by simp
    qed
  qed
qed

theorem is_reverted_monotone_witness:
  "is_reverted [page_rev 1 50 ''a''] (page_rev 2 100 ''b'') demo_window 1 1000 = None \<and>
   is_reverted [page_rev 1 50 ''a''] (page_rev 2 100 ''b'') demo_window 2 299 = None \<and>
   is_reverted [page_rev 1 50 ''a''] (page_rev 2 100 ''b'') demo_window 2 300 =
     Some \<lparr>reverting_revision = page_rev 4 300 ''a'',
           reverted_revisions = [page_rev 2 100 ''b'', page_rev 3 200 ''c''],
           reverted_to = page_rev 1 50 ''a''\<rparr> \<and>
   is_reverted [page_rev 1 50 ''a''] (page_rev 2 100 ''b'') demo_window 15 1000 =
     Some \<lparr>reverting_revision = page_rev 4 300 ''a'',
           reverted_revisions = [page_rev 2 100 ''b'', page_rev 3 200 ''c''],
           reverted_to = page_rev 1 50 ''a''\<rparr>"
proof -
  have small: "is_reverted [page_rev 1 50 ''a''] (page_rev 2 100 ''b'') demo_window 2 300 =
     Some \<lparr>reverting_revision = page_rev 4 300 ''a'',
           reverted_revisions = [page_rev 2 100 ''b'', page_rev 3 200 ''c''],
           reverted_to = page_rev 1 50 ''a''\<rparr>"
    by (simp add: is_reverted_def restored_def demo_window_def page_rev_def)
  have r: "(2::int) \<le> 15" and d: "(300::int) \<le> 1000"
    by simp_all
  have "is_reverted [page_rev 1 50 ''a''] (page_rev 2 100 ''b'') demo_window 1 1000 = None"
    by (simp add: is_reverted_def restored_def demo_window_def page_rev_def)
  moreover have "is_reverted [page_rev 1 50 ''a''] (page_rev 2 100 ''b'') demo_window 2 299 = None"
    by (simp add: is_reverted_def restored_def demo_window_def page_rev_def)
  moreover note small
  moreover from is_reverted_monotone [OF r d] small have
    "is_reverted [page_rev 1 50 ''a''] (page_rev 2 100 ''b'') demo_window 15 1000 =
     Some \<lparr>reverting_revision = page_rev 4 300 ''a'',
           reverted_revisions = [page_rev 2 100 ''b'', page_rev 3 200 ''c''],
           reverted_to = page_rev 1 50 ''a''\<rparr>"
    by blast
  ultimately show ?thesis by (intro conjI)
qed

end
